theory Spec2Isabelle
  imports Main "HOL-Library.Sublist" "HOL-Library.AList"
begin

section \<open>Text, as Python's \<open>str\<close> operations see it\<close>

text \<open>
  A Python \<open>str\<close> is a sequence of code points. The model uses \<open>string\<close> (a list of
  \<open>char\<close>), each \<open>char\<close> read as the code point of the same number (0 to 255).
  The classification of characters below is Python's for that range.
\<close>

definition NL :: char where
  "NL = CHR 0x0A"

definition CR :: char where
  "CR = CHR 0x0D"

text \<open>
  \<open>str.isspace\<close> on one character; the regular expression class \<open>\s\<close> of a \<open>str\<close>
  pattern uses the same test: TAB, LF, VT, FF, CR, the separators 0x1C to 0x1F, the space,
  NEL (0x85) and the no-break space (0xA0).
\<close>

definition is_space :: "char \<Rightarrow> bool" where
  "is_space c =
     (let n = (of_char c :: nat)
      in (9 \<le> n \<and> n \<le> 13) \<or> (28 \<le> n \<and> n \<le> 32) \<or> n = 133 \<or> n = 160)"

text \<open>
  \<open>str.lower\<close> on one character: A to Z, and the capital letters of Latin-1 (0xC0 to 0xDE
  without the multiplication sign 0xD7), move up by 32; everything else stays.
\<close>

definition lower_char :: "char \<Rightarrow> char" where
  "lower_char c =
     (let n = (of_char c :: nat)
      in if (65 \<le> n \<and> n \<le> 90) \<or> (192 \<le> n \<and> n \<le> 222 \<and> n \<noteq> 215)
         then char_of (n + 32) else c)"

definition lower :: "string \<Rightarrow> string" where
  "lower s = map lower_char s"

definition lstrip :: "string \<Rightarrow> string" where
  "lstrip s = dropWhile is_space s"

text \<open>\<open>str.rstrip\<close>: the trailing run of whitespace goes.\<close>

definition rstrip :: "string \<Rightarrow> string" where
  "rstrip s = rev (dropWhile is_space (rev s))"

definition strip :: "string \<Rightarrow> string" where
  "strip s = rstrip (lstrip s)"

definition startswith :: "string \<Rightarrow> string \<Rightarrow> bool" where
  "startswith s p = prefix p s"

text \<open>\<open>sub in s\<close>: \<open>sub\<close> occurs in \<open>s\<close> as a contiguous run.\<close>

fun contains :: "string \<Rightarrow> string \<Rightarrow> bool" where
  "contains sub [] = (sub = [])"
| "contains sub (c # cs) = (prefix sub (c # cs) \<or> contains sub cs)"

text \<open>
  \<open>s.replace(old, new, 1)\<close>: the leftmost occurrence of \<open>old\<close> is replaced, if there is
  one. (An empty \<open>old\<close> occurs at position 0.)
\<close>

fun replace_first :: "string \<Rightarrow> string \<Rightarrow> string \<Rightarrow> string" where
  "replace_first old new [] = (if old = [] then new else [])"
| "replace_first old new (c # cs) =
     (if prefix old (c # cs) then new @ drop (length old) (c # cs)
      else c # replace_first old new cs)"

text \<open>
  \<open>s.replace(old, new)\<close>: every occurrence, left to right, without overlaps. The source
  calls it with a non-empty \<open>old\<close> only; for an empty one Python puts \<open>new\<close> around
  every character.
\<close>

fun replace_all :: "string \<Rightarrow> string \<Rightarrow> string \<Rightarrow> string" where
  "replace_all old new [] = (if old = [] then new else [])"
| "replace_all old new (c # cs) =
     (if old = [] then new @ c # replace_all old new cs
      else if prefix old (c # cs) then new @ replace_all old new (drop (length old - 1) cs)
      else c # replace_all old new cs)"

text \<open>
  Reading in text mode with the default \<open>newline=None\<close>: CR LF and a lone CR arrive
  as LF.
\<close>

fun universal_newlines :: "string \<Rightarrow> string" where
  "universal_newlines [] = []"
| "universal_newlines [c] = [if c = CR then NL else c]"
| "universal_newlines (c # d # cs) =
     (if c = CR \<and> d = NL then NL # universal_newlines cs
      else if c = CR then NL # universal_newlines (d # cs)
      else c # universal_newlines (d # cs))"

text \<open>
  Iterating over a text file, and \<open>readline\<close> until it returns the empty string: the text
  is cut after every LF, each line keeps its LF, and a last line without LF is a line too.
\<close>

fun file_lines :: "string \<Rightarrow> string list" where
  "file_lines [] = []"
| "file_lines (c # cs) =
     (if c = NL then [c] # file_lines cs
      else (case file_lines cs of [] \<Rightarrow> [[c]] | l # ls \<Rightarrow> (c # l) # ls))"

section \<open>The log summarizer\<close>

record StackDiffs =
  stable :: "string list"
  diffs :: "(string \<times> string list) list"

text \<open>
  \<open>TOFU_RE = .*\[(?P<module>[^\]]+)\]\s+tofu:\s(?P<message>.*)\<close>, applied with \<open>match\<close>
  (anchored at the start of the line, not at its end).

  \<open>tofu_at\<close> is everything after the leading \<open>.*\<close>, tried at the start of its argument.
  Each greedy part has one length that can succeed: the class \<open>[^\]]+\<close> must stop at
  the first \<open>]\<close> (the next item is \<open>]\<close>), \<open>\s+\<close> must take the whole run of whitespace
  (the next item is \<open>t\<close>), and the final \<open>.*\<close> runs to the line feed or the end. The
  dot does not match a line feed; the class and \<open>\s\<close> do.
\<close>

definition tofu_at :: "string \<Rightarrow> (string \<times> string) option" where
  "tofu_at s =
     (case s of
        [] \<Rightarrow> None
      | c # r \<Rightarrow>
          if c \<noteq> CHR ''['' then None
          else
            let module = takeWhile (\<lambda>x. x \<noteq> CHR '']'') r;
                r1 = dropWhile (\<lambda>x. x \<noteq> CHR '']'') r
            in if module = [] then None
               else (case r1 of
                  [] \<Rightarrow> None
                | _ # r2 \<Rightarrow>
                    let ws = takeWhile is_space r2;
                        r3 = dropWhile is_space r2
                    in if ws = [] then None
                       else if \<not> prefix ''tofu:'' r3 then None
                       else (case drop 5 r3 of
                          [] \<Rightarrow> None
                        | d # r4 \<Rightarrow>
                            if is_space d then Some (module, takeWhile (\<lambda>x. x \<noteq> NL) r4)
                            else None)))"

text \<open>
  The leading \<open>.*\<close> is greedy: the longest prefix without a line feed after which the
  rest matches is the one Python reports, so the deeper position is tried first.
\<close>

fun TOFU_RE_match :: "string \<Rightarrow> (string \<times> string) option" where
  "TOFU_RE_match [] = tofu_at []"
| "TOFU_RE_match (c # cs) =
     (if c = NL then tofu_at (c # cs)
      else (case TOFU_RE_match cs of
              Some g \<Rightarrow> Some g
            | None \<Rightarrow> tofu_at (c # cs)))"

text \<open>
  \<open>_normalize_diff_line\<close>. The dictionary \<open>replace\<close> is walked in insertion order; the
  three keys exclude each other as first characters.
\<close>

definition replace_table :: "(string \<times> string) list" where
  "replace_table = [(''~'', ''!''), (''+'', ''+''), (''-'', ''-'')]"

fun normalize_loop :: "(string \<times> string) list \<Rightarrow> string \<Rightarrow> string \<Rightarrow> string" where
  "normalize_loop [] line stripped = line"
| "normalize_loop ((k, v) # kvs) line stripped =
     (if startswith stripped k then v @ replace_first stripped (drop 1 stripped) line
      else normalize_loop kvs line stripped)"

definition normalize_diff_line :: "string \<Rightarrow> string" where
  "normalize_diff_line line = normalize_loop replace_table line (lstrip line)"

text \<open>
  \<open>entries[unit].append(message)\<close> on a \<open>defaultdict(list)\<close>. A Python dictionary keeps
  its keys in the order of their first insertion, so it is an association list here.
\<close>

fun entries_append ::
  "(string \<times> string list) list \<Rightarrow> string \<Rightarrow> string \<Rightarrow> (string \<times> string list) list" where
  "entries_append [] unit msg = [(unit, [msg])]"
| "entries_append ((k, v) # es) unit msg =
     (if k = unit then (k, v @ [msg]) # es else (k, v) # entries_append es unit msg)"

definition stack_marker :: string where
  "stack_marker = ''.terragrunt-stack/''"

fun collect_loop ::
  "string list \<Rightarrow> (string \<times> string list) list \<Rightarrow> (string \<times> string list) list" where
  "collect_loop [] entries = entries"
| "collect_loop (ln # lns) entries =
     (case TOFU_RE_match ln of
        None \<Rightarrow> collect_loop lns entries
      | Some (module, message) \<Rightarrow>
          collect_loop lns (entries_append entries (replace_all stack_marker [] module) message))"

text \<open>\<open>_collect_unit_entries\<close>, on the text stored in the file.\<close>

definition collect_unit_entries :: "string \<Rightarrow> (string \<times> string list) list" where
  "collect_unit_entries content = collect_loop (file_lines (universal_newlines content)) []"

definition no_changes_msg :: "string \<Rightarrow> bool" where
  "no_changes_msg msg = startswith (lower (strip msg)) ''no changes''"

fun summarize_loop :: "(string \<times> string list) list \<Rightarrow> StackDiffs \<Rightarrow> StackDiffs" where
  "summarize_loop [] acc = acc"
| "summarize_loop ((unit, msgs) # rest) acc =
     (if list_ex no_changes_msg msgs
      then summarize_loop rest (acc\<lparr>stable := stable acc @ [unit]\<rparr>)
      else summarize_loop rest
             (acc\<lparr>diffs := AList.update unit (map normalize_diff_line msgs) (diffs acc)\<rparr>))"

text \<open>
  The file system: a path has the text of a readable file, or nothing. \<open>_summarize_unit_logs\<close>
  returns \<open>None\<close> for Python's \<open>None\<close>.
\<close>

type_synonym path = string
type_synonym files = "path \<Rightarrow> string option"

definition summarize_unit_logs :: "files \<Rightarrow> path \<Rightarrow> StackDiffs option" where
  "summarize_unit_logs fs log_file =
     (case fs log_file of
        None \<Rightarrow> None
      | Some content \<Rightarrow>
          Some (summarize_loop (collect_unit_entries content) \<lparr>stable = [], diffs = []\<rparr>))"

text \<open>
  The spec's wording of the stability test, to be compared with \<open>no_changes_msg\<close>: the
  message, with its leading whitespace trimmed, begins with the given words when letter
  case is ignored.
\<close>

definition ci_startswith :: "string \<Rightarrow> string \<Rightarrow> bool" where
  "ci_startswith s p = list_all2 (\<lambda>a b. lower_char a = lower_char b) (take (length p) s) p"

definition spec_no_changes :: "string \<Rightarrow> bool" where
  "spec_no_changes msg = ci_startswith (lstrip msg) ''no changes''"

section \<open>The report command\<close>

datatype error = BadParameter string | Exit int

definition exit_marker :: string where
  "exit_marker = ''terragrunt-exit-code=''"

text \<open>
  \<open>GITHUB_PR_COMMENT_TMPL\<close>, rendered by Jinja with its default settings: a tag closed
  with \<open>-%}\<close> swallows the whitespace after it, the single line feed at the end of the
  template is dropped, values are inserted unescaped, and a \<open>StackDiffs\<close> object is true.
\<close>

definition render_stable_unit :: "string \<Rightarrow> string" where
  "render_stable_unit unit = ''- `'' @ unit @ ''`'' @ [NL]"

definition render_changed_unit :: "string \<times> string list \<Rightarrow> string" where
  "render_changed_unit ul =
     (case ul of (unit, lines) \<Rightarrow>
        ''- `'' @ unit @ ''`'' @ [NL, NL]
        @ ''<details>'' @ [NL]
        @ ''<summary>Changes to '' @ unit @ ''</summary>'' @ [NL, NL]
        @ ''```diff'' @ [NL]
        @ concat (map (\<lambda>ln. ln @ [NL]) lines)
        @ ''```'' @ [NL, NL]
        @ ''</details>'' @ [NL, NL])"

definition render :: "string \<Rightarrow> StackDiffs option \<Rightarrow> string" where
  "render state ds =
     [NL] @
     (if state = ''NO_CHANGES'' then ''No changes detected.'' @ [NL]
      else if state = ''HAS_ERROR'' then ''Errors found. See logs.'' @ [NL]
      else
        ''Unchanged units:'' @ [NL, NL]
        @ (case ds of
             Some d \<Rightarrow>
               if stable d \<noteq> [] then concat (map render_stable_unit (stable d))
               else ''None'' @ [NL]
           | None \<Rightarrow> ''None'' @ [NL])
        @ [NL, NL, NL] @ ''Changed units:'' @ [NL, NL]
        @ (case ds of
             Some d \<Rightarrow>
               if diffs d \<noteq> [] then concat (map render_changed_unit (diffs d))
               else ''None'' @ [NL]
           | None \<Rightarrow> ''None'' @ [NL])
        @ [NL, NL])"

text \<open>
  The state chosen by \<open>plan_github_pr_comment\<close> from the text of the log: four substring
  tests, in the order of the source.
\<close>

definition exit_state :: "string \<Rightarrow> error + string" where
  "exit_state content =
     (if \<not> contains exit_marker content
      then Inl (BadParameter ''Log file missing terragrunt-exit-code marker'')
      else if contains (exit_marker @ ''0'') content then Inr ''NO_CHANGES''
      else if contains (exit_marker @ ''1'') content then Inr ''HAS_ERROR''
      else if contains (exit_marker @ ''2'') content then Inr ''HAS_CHANGES''
      else Inl (BadParameter ''Unexpected exit code marker in log file''))"

text \<open>
  \<open>plan_github_pr_comment\<close>: the result is the error raised, or the file system with the
  report written to \<open>output\<close>. The line echoed to the console is left out.
\<close>

definition plan_github_pr_comment :: "files \<Rightarrow> path \<Rightarrow> path \<Rightarrow> error + files" where
  "plan_github_pr_comment fs log_file output =
     (case fs log_file of
        None \<Rightarrow> Inl (BadParameter (''Log file not found: '' @ log_file))
      | Some raw \<Rightarrow>
          (case exit_state (universal_newlines raw) of
             Inl e \<Rightarrow> Inl e
           | Inr state \<Rightarrow>
               Inr (fs(output \<mapsto> render state (summarize_unit_logs fs log_file)))))"

section \<open>The stream relay and the plan command\<close>

text \<open>An integer in an f-string: decimal digits, with a minus sign when negative.\<close>

definition digit_char :: "nat \<Rightarrow> char" where
  "digit_char d = char_of (48 + d)"

fun str_nat :: "nat \<Rightarrow> string" where
  "str_nat n = (if n < 10 then [digit_char n] else str_nat (n div 10) @ [digit_char (n mod 10)])"

declare str_nat.simps [simp del]

definition str_int :: "int \<Rightarrow> string" where
  "str_int i = (if i < 0 then CHR ''-'' # str_nat (nat (- i)) else str_nat (nat i))"

record CommandResult =
  code :: int
  stdout :: string
  stderr :: string

text \<open>
  What a launched child process does: the text it writes to each of its two pipes and
  the code it exits with. The operating system is a function from the command line and
  the working directory to such a behaviour.
\<close>

record child =
  exit_code :: int
  out_text :: string
  err_text :: string

type_synonym os = "string list \<Rightarrow> path option \<Rightarrow> child"

record world =
  files :: files
  sys_stdout :: string
  sys_stderr :: string

datatype stream = Stdout | Stderr

record relay =
  out_lines :: "string list"
  err_lines :: "string list"
  env :: world

definition fs_append :: "path \<Rightarrow> string \<Rightarrow> files \<Rightarrow> files" where
  "fs_append p txt fs = fs(p \<mapsto> (case fs p of None \<Rightarrow> txt | Some old \<Rightarrow> old @ txt))"

definition touch :: "path \<Rightarrow> files \<Rightarrow> files" where
  "touch p fs = (case fs p of None \<Rightarrow> fs(p \<mapsto> []) | Some _ \<Rightarrow> fs)"

text \<open>
  One turn of the loop of \<open>_drain\<close>, for the thread of stream \<open>t\<close> and the line \<open>ln\<close> it
  has read: the line goes to the thread's collector, to the console unless \<open>quiet\<close>, and
  to the log file when there is one.
\<close>

definition drain_line :: "path option \<Rightarrow> bool \<Rightarrow> stream \<Rightarrow> string \<Rightarrow> relay \<Rightarrow> relay" where
  "drain_line log_file quiet t ln st =
     (let st1 = (case t of
                   Stdout \<Rightarrow> st\<lparr>out_lines := out_lines st @ [ln]\<rparr>
                 | Stderr \<Rightarrow> st\<lparr>err_lines := err_lines st @ [ln]\<rparr>);
          st2 = (if \<not> quiet
                 then (case t of
                         Stdout \<Rightarrow> st1\<lparr>env := (env st1)\<lparr>sys_stdout := sys_stdout (env st1) @ ln\<rparr>\<rparr>
                       | Stderr \<Rightarrow> st1\<lparr>env := (env st1)\<lparr>sys_stderr := sys_stderr (env st1) @ ln\<rparr>\<rparr>)
                 else st1)
      in (case log_file of
            Some p \<Rightarrow> st2\<lparr>env := (env st2)\<lparr>files := fs_append p ln (files (env st2))\<rparr>\<rparr>
          | None \<Rightarrow> st2))"

text \<open>
  The two draining threads run side by side. The schedule says which thread takes the
  next turn while both pipes still have lines; a thread whose pipe is at its end has
  left its loop, and when the schedule is used up the standard output thread goes first.
  Every interleaving of the two threads is the run of some schedule.
\<close>

fun drain ::
  "stream list \<Rightarrow> string list \<Rightarrow> string list \<Rightarrow> path option \<Rightarrow> bool \<Rightarrow> relay \<Rightarrow> relay" where
  "drain sched [] [] log_file quiet st = st"
| "drain sched (l # ls) [] log_file quiet st =
     drain sched ls [] log_file quiet (drain_line log_file quiet Stdout l st)"
| "drain sched [] (e # es) log_file quiet st =
     drain sched [] es log_file quiet (drain_line log_file quiet Stderr e st)"
| "drain [] (l # ls) (e # es) log_file quiet st =
     drain [] ls (e # es) log_file quiet (drain_line log_file quiet Stdout l st)"
| "drain (Stdout # sched) (l # ls) (e # es) log_file quiet st =
     drain sched ls (e # es) log_file quiet (drain_line log_file quiet Stdout l st)"
| "drain (Stderr # sched) (l # ls) (e # es) log_file quiet st =
     drain sched (l # ls) es log_file quiet (drain_line log_file quiet Stderr e st)"

text \<open>
  The order in which the lines reach the log file under a schedule: the turns of
  \<open>drain\<close>, as a list.
\<close>

fun interleave :: "stream list \<Rightarrow> string list \<Rightarrow> string list \<Rightarrow> string list" where
  "interleave sched [] [] = []"
| "interleave sched (l # ls) [] = l # interleave sched ls []"
| "interleave sched [] (e # es) = e # interleave sched [] es"
| "interleave [] (l # ls) (e # es) = l # interleave [] ls (e # es)"
| "interleave (Stdout # sched) (l # ls) (e # es) = l # interleave sched ls (e # es)"
| "interleave (Stderr # sched) (l # ls) (e # es) = e # interleave sched (l # ls) es"

text \<open>
  \<open>run_live\<close>. The pipes are opened in text mode, so their text is read with universal
  newlines, line by line. The parent directory of the log file needs no model: the file
  system here is flat.
\<close>

definition run_live ::
  "os \<Rightarrow> stream list \<Rightarrow> string list \<Rightarrow> path option \<Rightarrow> path option \<Rightarrow> bool \<Rightarrow> world
     \<Rightarrow> CommandResult \<times> world" where
  "run_live exec sched cmd log_file cwd quiet wd =
     (let proc = exec cmd cwd;
          wd1 = (case log_file of
                   Some p \<Rightarrow> wd\<lparr>files := touch p (files wd)\<rparr>
                 | None \<Rightarrow> wd);
          st = drain sched
                 (file_lines (universal_newlines (out_text proc)))
                 (file_lines (universal_newlines (err_text proc)))
                 log_file quiet \<lparr>out_lines = [], err_lines = [], env = wd1\<rparr>
      in (\<lparr>code = exit_code proc, stdout = concat (out_lines st),
           stderr = concat (err_lines st)\<rparr>, env st))"

definition write_exit_marker :: "path \<Rightarrow> int \<Rightarrow> files \<Rightarrow> files" where
  "write_exit_marker p c fs = fs_append p (exit_marker @ str_int c @ [NL]) fs"

datatype ChangeState = CLEAN | DIRTY | ERROR

definition plan_cmd :: "path \<Rightarrow> string list" where
  "plan_cmd stack_root =
     [''terragrunt'', ''--working-dir='' @ stack_root, ''stack'', ''run'', ''--'', ''plan'',
      ''-detailed-exitcode'', ''-out=tofu.plan'']"

definition show_cmd :: "path \<Rightarrow> string list" where
  "show_cmd stack_root =
     [''terragrunt'', ''--no-color'', ''--working-dir='' @ stack_root, ''stack'', ''run'', ''--'',
      ''show'', ''tofu.plan'']"

text \<open>
  \<open>Runner.plan\<close>, with one schedule for each of its two relays. The result is the state
  returned or the \<open>Exit\<close> raised, and the world left behind. The status lines echoed to
  the console are left out.
\<close>

definition plan ::
  "os \<Rightarrow> stream list \<Rightarrow> stream list \<Rightarrow> path \<Rightarrow> path option \<Rightarrow> world
     \<Rightarrow> (error + ChangeState) \<times> world" where
  "plan exec sched1 sched2 stack_root log_file wd =
     (let wd0 = (case log_file of
                   Some p \<Rightarrow> if files wd p \<noteq> None then wd\<lparr>files := (files wd)(p := None)\<rparr> else wd
                 | None \<Rightarrow> wd);
          (result, wd1) = run_live exec sched1 (plan_cmd stack_root) log_file None False wd0;
          wd2 = (case log_file of
                   Some p \<Rightarrow>
                     if code result \<noteq> 1
                     then (let (shown, wd') =
                                 run_live exec sched2 (show_cmd stack_root) log_file None True wd1
                           in wd'\<lparr>files := write_exit_marker p (code result) (files wd')\<rparr>)
                     else wd1
                 | None \<Rightarrow> wd1)
      in if code result = 0 then (Inr CLEAN, wd2)
         else if code result = 2 then (Inr DIRTY, wd2)
         else (Inl (Exit 1),
               if log_file = None \<and> stderr result \<noteq> []
               then wd2\<lparr>sys_stderr := sys_stderr wd2 @ stderr result\<rparr> else wd2))"

text \<open>
  The unit names of the matching lines, in the order of the lines: the module of each
  match with the stack marker replaced by nothing, as \<open>_collect_unit_entries\<close> derives
  them.
\<close>

fun unit_names :: "string list \<Rightarrow> string list" where
  "unit_names [] = []"
| "unit_names (ln # lns) =
     (case TOFU_RE_match ln of
        None \<Rightarrow> unit_names lns
      | Some (module, message) \<Rightarrow> replace_all stack_marker [] module # unit_names lns)"

section \<open>Concrete logs and processes\<close>

definition round_trip_log :: "bool \<Rightarrow> string" where
  "round_trip_log final_newline =
     ''[unit-a] tofu: No changes. Infrastructure is up-to-date.'' @ [NL]
     @ ''[unit-b] tofu: ~ update resource \"x\"'' @ (if final_newline then [NL] else [])"

definition tie_break_log :: string where
  "tie_break_log = ''[u] tofu: no changes'' @ [NL] @ ''[u] tofu: + add resource y'' @ [NL]"

definition plain_log :: string where
  "plain_log = ''Initializing modules...'' @ [NL] @ ''[unit-a] terraform: done''"

definition code3_log :: string where
  "code3_log = ''terragrunt-exit-code=3'' @ [NL]"

definition sentinel_log :: "int \<Rightarrow> string" where
  "sentinel_log c = ''plan output'' @ exit_marker @ str_int c @ [NL]"

definition shadowed_log :: string where
  "shadowed_log =
     ''see terragrunt-exit-code=01 above'' @ [NL] @ ''terragrunt-exit-code=2'' @ [NL]"

definition failing_os :: os where
  "failing_os cmd cwd = \<lparr>exit_code = 1, out_text = ''Error: plan failed'' @ [NL], err_text = []\<rparr>"


definition empty_world :: world where
  "empty_world = \<lparr>files = Map.empty, sys_stdout = [], sys_stderr = []\<rparr>"

section \<open>Lemmas\<close>

subsection \<open>The pattern\<close>

lemma takeWhile_all_then_stop:
  "\<forall>x \<in> set xs. P x \<Longrightarrow> \<not> P y \<Longrightarrow> takeWhile P (xs @ y # ys) = xs"
  by (induction xs) auto

lemma dropWhile_all_then_stop:
  "\<forall>x \<in> set xs. P x \<Longrightarrow> \<not> P y \<Longrightarrow> dropWhile P (xs @ y # ys) = y # ys"
  by (induction xs) auto

lemma takeWhile_to_end:
  "\<forall>x \<in> set xs. P x \<Longrightarrow> rest = [] \<or> \<not> P (hd rest) \<Longrightarrow> takeWhile P (xs @ rest) = xs"
  by (cases rest) (auto simp: takeWhile_all_then_stop)

lemma t_not_space: "\<not> is_space CHR ''t''"
  by (simp add: is_space_def)

text \<open>
  \<open>tofu_at\<close> against the pattern read as a description of text: it succeeds exactly on
  an opening bracket, a non-empty module without a closing bracket, the closing bracket,
  a non-empty run of whitespace, \<open>tofu:\<close>, one whitespace character, and a message that
  runs to the first line feed or to the end; the groups are the module and the message.
\<close>

lemma tofu_at_complete:
  assumes "module \<noteq> []" and "CHR '']'' \<notin> set module"
    and "ws \<noteq> []" and "\<forall>c \<in> set ws. is_space c" and "is_space d"
    and "NL \<notin> set message" and "rest = [] \<or> hd rest = NL"
  shows "tofu_at (''['' @ module @ '']'' @ ws @ ''tofu:'' @ d # message @ rest) = Some (module, message)"
proof -
  let ?tail = "ws @ ''tofu:'' @ d # message @ rest"
  have m: "\<forall>x \<in> set module. x \<noteq> CHR '']''" using assms(2) by auto
  have t1: "takeWhile (\<lambda>x. x \<noteq> CHR '']'') (module @ CHR '']'' # ?tail) = module"
    using m by (rule takeWhile_all_then_stop) simp
  have d1: "dropWhile (\<lambda>x. x \<noteq> CHR '']'') (module @ CHR '']'' # ?tail) = CHR '']'' # ?tail"
    using m by (rule dropWhile_all_then_stop) simp
  have t2: "takeWhile is_space (ws @ CHR ''t'' # ''ofu:'' @ d # message @ rest) = ws"
    using assms(4) t_not_space by (rule takeWhile_all_then_stop)
  have d2: "dropWhile is_space (ws @ CHR ''t'' # ''ofu:'' @ d # message @ rest) =
              CHR ''t'' # ''ofu:'' @ d # message @ rest"
    using assms(4) t_not_space by (rule dropWhile_all_then_stop)
  have t3: "takeWhile (\<lambda>x. x \<noteq> NL) (message @ rest) = message"
    using assms(6,7) by (intro takeWhile_to_end) auto
  show ?thesis
    using assms(1,3,5) t1 d1 t2 d2 t3 by (simp add: tofu_at_def)
qed

lemma tofu_at_sound:
  assumes "tofu_at s = Some (module, message)"
  shows "\<exists>ws d rest.
           s = ''['' @ module @ '']'' @ ws @ ''tofu:'' @ d # message @ rest \<and>
           module \<noteq> [] \<and> CHR '']'' \<notin> set module \<and>
           ws \<noteq> [] \<and> (\<forall>c \<in> set ws. is_space c) \<and> is_space d \<and>
           NL \<notin> set message \<and> (rest = [] \<or> hd rest = NL)"
proof -
  from assms obtain r where s: "s = CHR ''['' # r"
    by (auto simp: tofu_at_def split: list.splits if_splits)
  let ?m = "takeWhile (\<lambda>x. x \<noteq> CHR '']'') r"
  let ?r1 = "dropWhile (\<lambda>x. x \<noteq> CHR '']'') r"
  from assms s have m: "?m \<noteq> []"
    by (auto simp: tofu_at_def Let_def split: list.splits if_splits)
  from assms s obtain b r2 where r1: "?r1 = b # r2"
    by (auto simp: tofu_at_def Let_def split: list.splits if_splits)
  have b: "b = CHR '']''" using r1 hd_dropWhile [of "\<lambda>x. x \<noteq> CHR '']''" r] by force
  let ?ws = "takeWhile is_space r2"
  let ?r3 = "dropWhile is_space r2"
  from assms s r1 m have ws: "?ws \<noteq> []" and p: "prefix ''tofu:'' ?r3"
    by (auto simp: tofu_at_def Let_def split: list.splits if_splits)
  from p obtain r3' where r3: "?r3 = ''tofu:'' @ r3'" by (auto simp: prefix_def)
  from assms s r1 m ws p r3 obtain d r4 where r3': "r3' = d # r4" and d: "is_space d"
    and msg: "message = takeWhile (\<lambda>x. x \<noteq> NL) r4" and md: "module = ?m"
    by (auto simp: tofu_at_def Let_def split: list.splits if_splits)
  let ?rest = "dropWhile (\<lambda>x. x \<noteq> NL) r4"
  have rest: "?rest = [] \<or> hd ?rest = NL"
    using hd_dropWhile [of "\<lambda>x. x \<noteq> NL" r4] by auto
  have "r = ?m @ ?r1" by simp
  also have "\<dots> = ?m @ CHR '']'' # (?ws @ ?r3)" using r1 b by simp
  also have "\<dots> = ?m @ CHR '']'' # (?ws @ ''tofu:'' @ d # (message @ ?rest))"
    unfolding r3 r3' msg by simp
  finally have "s = ''['' @ module @ '']'' @ ?ws @ ''tofu:'' @ d # message @ ?rest"
    using s md by simp
  moreover have "CHR '']'' \<notin> set module" unfolding md by (auto dest: set_takeWhileD)
  moreover have "\<forall>c \<in> set ?ws. is_space c" by (auto dest: set_takeWhileD)
  moreover have "NL \<notin> set message" unfolding msg by (auto dest: set_takeWhileD)
  ultimately show ?thesis using m md ws d rest by blast
qed

lemma tofu_at_Nil: "tofu_at [] = None"
  by (simp add: tofu_at_def)

text \<open>
  \<open>TOFU_RE_match\<close> fails exactly when the rest matches after no prefix free of line
  feeds, and otherwise reports the match after the longest such prefix.
\<close>

lemma TOFU_RE_match_None_iff:
  "TOFU_RE_match ln = None \<longleftrightarrow> (\<forall>pre s. ln = pre @ s \<and> NL \<notin> set pre \<longrightarrow> tofu_at s = None)"
proof (induction ln)
  case Nil
  show ?case by (simp add: tofu_at_Nil)
next
  case (Cons c cs)
  show ?case
  proof (cases "c = NL")
    case True
    have "(\<forall>pre s. c # cs = pre @ s \<and> NL \<notin> set pre \<longrightarrow> tofu_at s = None) \<longleftrightarrow> tofu_at (c # cs) = None"
    proof
      assume a: "\<forall>pre s. c # cs = pre @ s \<and> NL \<notin> set pre \<longrightarrow> tofu_at s = None"
      show "tofu_at (c # cs) = None" using a [rule_format, of "[]" "c # cs"] by simp
    next
      assume t: "tofu_at (c # cs) = None"
      show "\<forall>pre s. c # cs = pre @ s \<and> NL \<notin> set pre \<longrightarrow> tofu_at s = None"
      proof (intro allI impI)
        fix pre s
        assume h: "c # cs = pre @ s \<and> NL \<notin> set pre"
        then have "pre = []" using True by (cases pre) auto
        then show "tofu_at s = None" using h t by simp
      qed
    qed
    then show ?thesis using True by simp
  next
    case False
    have "(\<forall>pre s. c # cs = pre @ s \<and> NL \<notin> set pre \<longrightarrow> tofu_at s = None) \<longleftrightarrow>
          tofu_at (c # cs) = None \<and> (\<forall>pre s. cs = pre @ s \<and> NL \<notin> set pre \<longrightarrow> tofu_at s = None)"
    proof
      assume a: "\<forall>pre s. c # cs = pre @ s \<and> NL \<notin> set pre \<longrightarrow> tofu_at s = None"
      have "tofu_at (c # cs) = None" using a [rule_format, of "[]" "c # cs"] by simp
      moreover have "\<forall>pre s. cs = pre @ s \<and> NL \<notin> set pre \<longrightarrow> tofu_at s = None"
      proof (intro allI impI)
        fix pre s
        assume "cs = pre @ s \<and> NL \<notin> set pre"
        then show "tofu_at s = None" using a [rule_format, of "c # pre" s] False by simp
      qed
      ultimately show "tofu_at (c # cs) = None \<and>
          (\<forall>pre s. cs = pre @ s \<and> NL \<notin> set pre \<longrightarrow> tofu_at s = None)" by simp
    next
      assume b: "tofu_at (c # cs) = None \<and>
          (\<forall>pre s. cs = pre @ s \<and> NL \<notin> set pre \<longrightarrow> tofu_at s = None)"
      show "\<forall>pre s. c # cs = pre @ s \<and> NL \<notin> set pre \<longrightarrow> tofu_at s = None"
      proof (intro allI impI)
        fix pre s
        assume h: "c # cs = pre @ s \<and> NL \<notin> set pre"
        show "tofu_at s = None"
        proof (cases pre)
          case Nil
          then show ?thesis using h b by simp
        next
          case (Cons x p)
          then have "cs = p @ s \<and> NL \<notin> set p" using h by simp
          then show ?thesis using b by blast
        qed
      qed
    qed
    moreover have "TOFU_RE_match (c # cs) = None \<longleftrightarrow>
        tofu_at (c # cs) = None \<and> TOFU_RE_match cs = None"
      using False by (cases "TOFU_RE_match cs") simp_all
    ultimately show ?thesis using Cons.IH by blast
  qed
qed

lemma TOFU_RE_match_Some:
  "TOFU_RE_match ln = Some g \<Longrightarrow>
   \<exists>pre s. ln = pre @ s \<and> NL \<notin> set pre \<and> tofu_at s = Some g \<and>
     (\<forall>pre' s'. ln = pre' @ s' \<and> NL \<notin> set pre' \<and> length pre < length pre' \<longrightarrow> tofu_at s' = None)"
proof (induction ln)
  case Nil
  then show ?case by (simp add: tofu_at_Nil)
next
  case (Cons c cs)
  show ?case
  proof (cases "c \<noteq> NL \<and> TOFU_RE_match cs \<noteq> None")
    case True
    then have "TOFU_RE_match cs = Some g" using Cons.prems by (auto split: option.splits)
    then obtain pre s where ps: "cs = pre @ s" "NL \<notin> set pre" "tofu_at s = Some g"
      and mx: "\<forall>pre' s'. cs = pre' @ s' \<and> NL \<notin> set pre' \<and> length pre < length pre' \<longrightarrow> tofu_at s' = None"
      using Cons.IH by blast
    have "c # cs = (c # pre) @ s \<and> NL \<notin> set (c # pre) \<and> tofu_at s = Some g"
      using ps True by auto
    moreover have "\<forall>pre' s'. c # cs = pre' @ s' \<and> NL \<notin> set pre' \<and> length (c # pre) < length pre'
        \<longrightarrow> tofu_at s' = None"
      using mx by (auto simp: Cons_eq_append_conv)
    ultimately show ?thesis by blast
  next
    case False
    then have here: "tofu_at (c # cs) = Some g"
      using Cons.prems by (cases "TOFU_RE_match cs") (auto split: if_splits)
    have "\<forall>pre' s'. c # cs = pre' @ s' \<and> NL \<notin> set pre' \<and> length ([] :: string) < length pre'
        \<longrightarrow> tofu_at s' = None"
    proof (intro allI impI)
      fix pre' s'
      assume h: "c # cs = pre' @ s' \<and> NL \<notin> set pre' \<and> length ([] :: string) < length pre'"
      then obtain p where p: "pre' = c # p" "cs = p @ s'" by (auto simp: Cons_eq_append_conv)
      then have "c \<noteq> NL" using h by auto
      then have "TOFU_RE_match cs = None" using False by (cases "TOFU_RE_match cs") auto
      then show "tofu_at s' = None" using p h unfolding TOFU_RE_match_None_iff by auto
    qed
    then show ?thesis using here by (metis append_Nil empty_iff list.set(1))
  qed
qed

subsection \<open>Normalizing a line\<close>

lemma replace_first_self_after_ws:
  "\<forall>w \<in> set ws. is_space w \<Longrightarrow> \<not> is_space c \<Longrightarrow>
     replace_first (c # r) new (ws @ c # r) = ws @ new"
  by (induction ws) auto

lemma line_split: "line = takeWhile is_space line @ lstrip line"
  by (simp add: lstrip_def)

lemma lstrip_Cons_not_space: "lstrip line = c # r \<Longrightarrow> \<not> is_space c"
  unfolding lstrip_def by (metis hd_dropWhile list.sel(1) list.distinct(1))

lemma replace_in_line:
  assumes "lstrip line = c # r"
  shows "replace_first (lstrip line) new line = takeWhile is_space line @ new"
proof -
  have ns: "\<not> is_space c" using assms by (rule lstrip_Cons_not_space)
  have ws: "\<forall>w \<in> set (takeWhile is_space line). is_space w"
    by (auto dest: set_takeWhileD)
  have "line = takeWhile is_space line @ c # r" using assms line_split by metis
  then have "replace_first (c # r) new line = takeWhile is_space line @ new"
    using replace_first_self_after_ws [OF ws ns, of r new] by simp
  then show ?thesis using assms by simp
qed

subsection \<open>Grouping by unit\<close>

lemma entries_append_keys: "map fst (entries_append es u m) = (if u \<in> fst ` set es then map fst es else map fst es @ [u])"
proof (induction es)
  case Nil then show ?case by simp
next
  case (Cons a es)
  obtain k v where a: "a = (k, v)" by (cases a)
  show ?case using Cons a by (cases "k = u") auto
qed

lemma entries_append_nonempty: "\<forall>(k, v) \<in> set es. v \<noteq> [] \<Longrightarrow> \<forall>(k, v) \<in> set (entries_append es u m). v \<noteq> []"
proof (induction es)
  case Nil then show ?case by simp
next
  case (Cons a es)
  obtain k v where a: "a = (k, v)" by (cases a)
  show ?case using Cons a by (cases "k = u") auto
qed

lemma entries_append_distinct: "distinct (map fst es) \<Longrightarrow> distinct (map fst (entries_append es u m))"
  by (simp add: entries_append_keys)

lemma collect_loop_distinct: "distinct (map fst es) \<Longrightarrow> distinct (map fst (collect_loop lns es))"
proof (induction lns arbitrary: es)
  case Nil then show ?case by simp
next
  case (Cons ln lns)
  show ?case
  proof (cases "TOFU_RE_match ln")
    case None then show ?thesis using Cons by simp
  next
    case (Some g)
    obtain module message where g: "g = (module, message)" by (cases g)
    have "distinct (map fst (entries_append es (replace_all stack_marker [] module) message))"
      using Cons.prems by (rule entries_append_distinct)
    then show ?thesis using Cons.IH Some g by simp
  qed
qed

lemma collect_loop_nonempty: "\<forall>(k, v) \<in> set es. v \<noteq> [] \<Longrightarrow> \<forall>(k, v) \<in> set (collect_loop lns es). v \<noteq> []"
proof (induction lns arbitrary: es)
  case Nil then show ?case by simp
next
  case (Cons ln lns)
  show ?case
  proof (cases "TOFU_RE_match ln")
    case None then show ?thesis using Cons by simp
  next
    case (Some g)
    obtain module message where g: "g = (module, message)" by (cases g)
    have "\<forall>(k, v) \<in> set (entries_append es (replace_all stack_marker [] module) message). v \<noteq> []"
      using Cons.prems by (rule entries_append_nonempty)
    then show ?thesis using Cons.IH Some g by simp
  qed
qed

lemma entries_append_key_set: "fst ` set (entries_append es u m) = insert u (fst ` set es)"
proof -
  have "set (map fst (entries_append es u m)) = insert u (set (map fst es))"
    unfolding entries_append_keys by auto
  then show ?thesis by simp
qed

lemma collect_loop_keys:
  "fst ` set (collect_loop lns es) = fst ` set es \<union> set (unit_names lns)"
proof (induction lns arbitrary: es)
  case Nil then show ?case by simp
next
  case (Cons ln lns)
  show ?case
  proof (cases "TOFU_RE_match ln")
    case None then show ?thesis using Cons by simp
  next
    case (Some g)
    obtain module message where g: "g = (module, message)" by (cases g)
    show ?thesis using Cons [of "entries_append es (replace_all stack_marker [] module) message"] Some g
      by (simp add: entries_append_key_set)
  qed
qed

lemma collect_loop_no_match:
  "\<forall>ln \<in> set lns. TOFU_RE_match ln = None \<Longrightarrow> collect_loop lns es = es"
  by (induction lns arbitrary: es) auto

subsection \<open>The loop of the summarizer\<close>

lemma update_fresh: "k \<notin> fst ` set al \<Longrightarrow> AList.update k v al = al @ [(k, v)]"
  by (induction al) auto

lemma summarize_loop_eq:
  "distinct (map fst g) \<Longrightarrow> fst ` set g \<inter> fst ` set (diffs acc) = {} \<Longrightarrow>
   summarize_loop g acc =
     \<lparr>stable = stable acc @ map fst (filter (\<lambda>(u, ms). list_ex no_changes_msg ms) g),
      diffs = diffs acc @ map (\<lambda>(u, ms). (u, map normalize_diff_line ms))
                (filter (\<lambda>(u, ms). \<not> list_ex no_changes_msg ms) g)\<rparr>"
proof (induction g arbitrary: acc)
  case Nil then show ?case by simp
next
  case (Cons a g)
  obtain u ms where a: "a = (u, ms)" by (cases a)
  show ?case
  proof (cases "list_ex no_changes_msg ms")
    case True
    have "fst ` set g \<inter> fst ` set (diffs (acc\<lparr>stable := stable acc @ [u]\<rparr>)) = {}"
      using Cons.prems by auto
    then show ?thesis using Cons.IH [of "acc\<lparr>stable := stable acc @ [u]\<rparr>"] Cons.prems True a
      by simp
  next
    case False
    have fresh: "u \<notin> fst ` set (diffs acc)" using Cons.prems a by auto
    let ?acc = "acc\<lparr>diffs := AList.update u (map normalize_diff_line ms) (diffs acc)\<rparr>"
    have d: "diffs ?acc = diffs acc @ [(u, map normalize_diff_line ms)]"
      using fresh by (simp add: update_fresh)
    have "fst ` set g \<inter> fst ` set (diffs ?acc) = {}"
      using Cons.prems a unfolding d by auto
    then show ?thesis using Cons.IH [of ?acc] Cons.prems False a d
      by simp
  qed
qed

subsection \<open>The stability test\<close>

lemma rstrip_prefix: "prefix (rstrip s) s"
proof -
  have "suffix (dropWhile is_space (rev s)) (rev s)" by (rule suffix_dropWhile)
  then have "prefix (rev (dropWhile is_space (rev s))) (rev (rev s))"
    by (simp only: suffix_to_prefix rev_rev_ident)
  then show ?thesis by (simp add: rstrip_def)
qed

lemma rstrip_keeps: "\<not> is_space c \<Longrightarrow> rstrip (a @ c # r) = a @ c # rstrip r"
  by (simp add: rstrip_def dropWhile_append3)

lemma prefix_take_iff: "prefix p s \<longleftrightarrow> take (length p) s = p"
  by (metis append_eq_conv_conj prefix_def append_take_drop_id)

lemma lower_rstrip_prefix:
  assumes "p \<noteq> []" and "\<And>c. lower_char c = last p \<Longrightarrow> \<not> is_space c"
  shows "prefix p (lower (rstrip s)) \<longleftrightarrow> prefix p (lower s)"
proof
  assume "prefix p (lower (rstrip s))"
  moreover have "prefix (lower (rstrip s)) (lower s)"
    unfolding lower_def using rstrip_prefix by (rule map_mono_prefix)
  ultimately show "prefix p (lower s)" by (rule prefix_order.trans)
next
  assume "prefix p (lower s)"
  then obtain t where t: "lower s = p @ t" by (auto simp: prefix_def)
  define n where "n = length p"
  have n: "0 < n" "n \<le> length s" using assms(1) t n_def
    by (auto simp: lower_def dest: arg_cong [where f = length])
  have p: "p = map lower_char (take n s)"
    using t unfolding lower_def n_def by (metis append_eq_conv_conj take_map)
  have "take n s \<noteq> []" using n by auto
  then obtain a c where ac: "take n s = a @ [c]" by (metis rev_exhaust)
  have "last p = lower_char c" using p ac by simp
  then have ns: "\<not> is_space c" using assms(2) by metis
  have "s = a @ c # drop n s" using ac by (metis append_take_drop_id append.assoc append_Cons append_Nil)
  then have "rstrip s = a @ c # rstrip (drop n s)" using rstrip_keeps [OF ns] by metis
  then have "lower (rstrip s) = p @ lower (rstrip (drop n s))"
    using p ac by (simp add: lower_def)
  then show "prefix p (lower (rstrip s))" by simp
qed

lemma lower_s_only: "lower_char c = CHR ''s'' \<Longrightarrow> \<not> is_space c"
proof
  assume l: "lower_char c = CHR ''s''" and sp: "is_space c"
  from sp have "lower_char c = c" by (auto simp: lower_char_def is_space_def Let_def)
  with l have "c = CHR ''s''" by simp
  with sp show False by (simp add: is_space_def)
qed

lemma ci_eq_map: "list_all2 (\<lambda>a b. f a = f b) xs ys \<longleftrightarrow> map f xs = map f ys"
  by (induction xs arbitrary: ys) (auto simp: list_all2_Cons1)

lemma no_changes_lower: "lower ''no changes'' = ''no changes''"
  by code_simp

lemma no_changes_msg_spec: "no_changes_msg msg = spec_no_changes msg"
proof -
  have len: "length ''no changes'' = 10" by simp
  have "prefix ''no changes'' (lower (rstrip (lstrip msg))) \<longleftrightarrow> prefix ''no changes'' (lower (lstrip msg))"
    by (rule lower_rstrip_prefix) (simp_all add: lower_s_only)
  also have "\<dots> \<longleftrightarrow> take 10 (lower (lstrip msg)) = ''no changes''"
    using prefix_take_iff [of "''no changes''" "lower (lstrip msg)"] unfolding len .
  also have "\<dots> \<longleftrightarrow> map lower_char (take 10 (lstrip msg)) = map lower_char ''no changes''"
    using no_changes_lower by (simp add: lower_def take_map)
  finally have e: "prefix ''no changes'' (lower (rstrip (lstrip msg))) \<longleftrightarrow>
      map lower_char (take 10 (lstrip msg)) = map lower_char ''no changes''" .
  show ?thesis
    unfolding no_changes_msg_def spec_no_changes_def ci_startswith_def startswith_def strip_def
      ci_eq_map len
    by (rule e)
qed

lemma round_trip_eval:
  "summarize_loop (collect_unit_entries (round_trip_log b)) \<lparr>stable = [], diffs = []\<rparr> =
     \<lparr>stable = [''unit-a''], diffs = [(''unit-b'', [''! update resource \"x\"''])]\<rparr>"
proof (cases b)
  case True
  have "summarize_loop (collect_unit_entries (round_trip_log True)) \<lparr>stable = [], diffs = []\<rparr> =
     \<lparr>stable = [''unit-a''], diffs = [(''unit-b'', [''! update resource \"x\"''])]\<rparr>"
    by code_simp
  then show ?thesis using True by simp
next
  case False
  have "summarize_loop (collect_unit_entries (round_trip_log False)) \<lparr>stable = [], diffs = []\<rparr> =
     \<lparr>stable = [''unit-a''], diffs = [(''unit-b'', [''! update resource \"x\"''])]\<rparr>"
    by code_simp
  then show ?thesis using False by simp
qed

lemma summary_eq:
  "summarize_loop (collect_unit_entries content) \<lparr>stable = [], diffs = []\<rparr> =
     \<lparr>stable = map fst (filter (\<lambda>(u, ms). list_ex no_changes_msg ms) (collect_unit_entries content)),
      diffs = map (\<lambda>(u, ms). (u, map normalize_diff_line ms))
                (filter (\<lambda>(u, ms). \<not> list_ex no_changes_msg ms) (collect_unit_entries content))\<rparr>"
proof -
  have "distinct (map fst (collect_unit_entries content))"
    unfolding collect_unit_entries_def by (rule collect_loop_distinct) simp
  then show ?thesis using summarize_loop_eq [of "collect_unit_entries content" "\<lparr>stable = [], diffs = []\<rparr>"]
    by simp
qed

lemma grouped_distinct: "distinct (map fst (collect_unit_entries content))"
  unfolding collect_unit_entries_def by (rule collect_loop_distinct) simp

lemma grouped_nonempty: "(unit, msgs) \<in> set (collect_unit_entries content) \<Longrightarrow> msgs \<noteq> []"
  using collect_loop_nonempty [of "[]" "file_lines (universal_newlines content)"]
  unfolding collect_unit_entries_def by auto

lemma list_ex_spec: "list_ex no_changes_msg msgs \<longleftrightarrow> (\<exists>m \<in> set msgs. spec_no_changes m)"
  by (simp add: list_ex_iff no_changes_msg_spec)

lemma stable_member:
  assumes "(unit, msgs) \<in> set g" and "distinct (map fst g)"
  shows "unit \<in> set (map fst (filter (\<lambda>(u, ms). P ms) g)) \<longleftrightarrow> P msgs"
proof
  assume "unit \<in> set (map fst (filter (\<lambda>(u, ms). P ms) g))"
  then obtain ms where "(unit, ms) \<in> set g" "P ms" by auto
  moreover have "ms = msgs" using assms calculation(1) by (metis eq_key_imp_eq_value)
  ultimately show "P msgs" by simp
next
  assume "P msgs"
  then have "(unit, msgs) \<in> set (filter (\<lambda>(u, ms). P ms) g)" using assms(1) by simp
  then show "unit \<in> set (map fst (filter (\<lambda>(u, ms). P ms) g))" by force
qed

lemma changed_member:
  assumes "(unit, msgs) \<in> set g" and "distinct (map fst g)"
  shows "unit \<in> fst ` set (map (\<lambda>(u, ms). (u, f ms)) (filter (\<lambda>(u, ms). P ms) g)) \<longleftrightarrow> P msgs"
proof -
  have "fst ` set (map (\<lambda>(u, ms). (u, f ms)) (filter (\<lambda>(u, ms). P ms) g)) =
        set (map fst (filter (\<lambda>(u, ms). P ms) g))" by force
  then show ?thesis using stable_member [OF assms, of P] by simp
qed

subsection \<open>Substrings and the exit marker\<close>

lemma contains_Nil: "contains [] s"
  by (cases s) simp_all

lemma contains_append_right: "contains (p @ q) s \<Longrightarrow> contains p s"
  by (induction s) (auto simp: contains_Nil dest: append_prefixD)

lemma contains_appendI: "contains p s \<Longrightarrow> contains p (a @ s)"
  by (induction a) auto

lemma contains_prefixI: "prefix p s \<Longrightarrow> contains p s"
  by (cases s) simp_all

lemma contains_marker_here: "contains p (a @ p @ b)"
  by (rule contains_appendI) (rule contains_prefixI, simp)

lemma not_contains_Cons: "\<not> contains p (c # s) \<Longrightarrow> \<not> prefix p (c # s) \<and> \<not> contains p s"
  by simp

text \<open>A word whose last letter occurs nowhere else in it does not overlap itself.\<close>

lemma no_overlap:
  assumes e: "e \<notin> set u" and p: "prefix (u @ [e]) (b @ u @ e # r)" and b: "b \<noteq> []"
  shows "prefix (u @ [e]) b"
proof (cases "length b \<le> length u")
  case False
  then have "length (u @ [e]) \<le> length b" by simp
  then show ?thesis using p by (metis prefix_length_prefix prefixI)
next
  case True
  have lt: "length u - length b < length u" using True b by (cases b) auto
  have "(u @ [e]) ! length u = (b @ u @ e # r) ! length u"
    using p by (metis prefix_def nth_append length_append_singleton lessI)
  then have "e = (b @ u @ e # r) ! length u" by simp
  also have "\<dots> = (u @ e # r) ! (length u - length b)"
    using True b by (cases "length u < length b") (auto simp: nth_append)
  also have "\<dots> = u ! (length u - length b)"
    using lt by (simp add: nth_append)
  finally have "e \<in> set u" using lt by (metis nth_mem)
  then show ?thesis using e by simp
qed

lemma single_occurrence:
  assumes e: "e \<notin> set u" and nb: "\<not> contains (u @ [e]) body"
  shows "contains (u @ e # q) (body @ u @ e # rest) \<longleftrightarrow>
           prefix q rest \<or> contains (u @ e # q) (tl (u @ e # rest))"
  using nb
proof (induction body)
  case Nil
  show ?case by (cases u) auto
next
  case (Cons b bs)
  from Cons.prems have np: "\<not> prefix (u @ [e]) (b # bs)" and nc: "\<not> contains (u @ [e]) bs"
    by simp_all
  have "\<not> prefix (u @ e # q) ((b # bs) @ u @ e # rest)"
  proof
    assume "prefix (u @ e # q) ((b # bs) @ u @ e # rest)"
    then have "prefix ((u @ [e]) @ q) ((b # bs) @ u @ e # rest)" by simp
    then have "prefix (u @ [e]) ((b # bs) @ u @ e # rest)" by (rule append_prefixD)
    then have "prefix (u @ [e]) (b # bs)" using no_overlap [OF e, of "b # bs" rest] by simp
    then show False using np by simp
  qed
  then show ?case using Cons.IH [OF nc] by simp
qed

lemma contains_hd: "contains p s \<Longrightarrow> p \<noteq> [] \<Longrightarrow> hd p \<in> set s"
  by (induction s) (auto simp: prefix_def Cons_eq_append_conv)

lemma marker_tail:
  assumes "\<not> contains exit_marker rest"
  shows "\<not> contains (''terragrunt-exit-code'' @ CHR ''='' # q)
            (tl (''terragrunt-exit-code'' @ CHR ''='' # rest))"
proof -
  have "\<not> contains (exit_marker @ q) rest"
    using assms contains_append_right by blast
  then show ?thesis by (simp add: exit_marker_def)
qed

lemma marker_split: "exit_marker = ''terragrunt-exit-code'' @ [CHR ''='']"
  by (simp add: exit_marker_def)

lemma marker_digit_occurrence:
  assumes nb: "\<not> contains exit_marker body" and nr: "\<not> contains exit_marker rest"
  shows "contains (exit_marker @ q) (body @ exit_marker @ rest) \<longleftrightarrow> prefix q rest"
proof -
  have e: "CHR ''='' \<notin> set ''terragrunt-exit-code''" by simp
  have nb': "\<not> contains (''terragrunt-exit-code'' @ [CHR ''='']) body"
    using nb unfolding marker_split .
  have "contains (''terragrunt-exit-code'' @ CHR ''='' # q)
          (body @ ''terragrunt-exit-code'' @ CHR ''='' # rest) \<longleftrightarrow> prefix q rest"
    unfolding single_occurrence [OF e nb'] using marker_tail [OF nr] by simp
  then show ?thesis by (simp add: exit_marker_def)
qed

lemma exit_state_single_marker:
  assumes nb: "\<not> contains exit_marker body" and nr: "\<not> contains exit_marker rest"
  shows "exit_state (body @ exit_marker @ rest) =
     (if prefix ''0'' rest then Inr ''NO_CHANGES''
      else if prefix ''1'' rest then Inr ''HAS_ERROR''
      else if prefix ''2'' rest then Inr ''HAS_CHANGES''
      else Inl (BadParameter ''Unexpected exit code marker in log file''))"
  unfolding exit_state_def marker_digit_occurrence [OF nb nr]
  using contains_marker_here [of exit_marker body rest] by simp

lemma digit_char_code: "d < 10 \<Longrightarrow> of_char (digit_char d) = 48 + d"
  by (simp add: digit_char_def)

lemma str_nat_chars: "x \<in> set (str_nat n) \<Longrightarrow> \<exists>d<10. x = digit_char d"
proof (induction n rule: str_nat.induct)
  case (1 n)
  show ?case
  proof (cases "n < 10")
    case True
    then show ?thesis using "1.prems" by (auto simp: str_nat.simps [of n])
  next
    case False
    have "x \<in> set (str_nat (n div 10)) \<or> x = digit_char (n mod 10)"
      using "1.prems" False by (auto simp: str_nat.simps [of n])
    then show ?thesis
    proof
      assume "x \<in> set (str_nat (n div 10))"
      then show ?thesis using "1.IH" False by simp
    next
      assume "x = digit_char (n mod 10)"
      moreover have "n mod 10 < 10" by simp
      ultimately show ?thesis by blast
    qed
  qed
qed

lemma str_nat_nonempty: "str_nat n \<noteq> []"
  by (simp add: str_nat.simps [of n])

lemma str_int_nonempty: "str_int c \<noteq> []"
  by (simp add: str_int_def str_nat_nonempty)

lemma no_t_in_str_int: "CHR ''t'' \<notin> set (str_int c)"
proof
  assume t: "CHR ''t'' \<in> set (str_int c)"
  then have "CHR ''t'' \<in> set (str_nat (nat (- c))) \<or> CHR ''t'' \<in> set (str_nat (nat c))"
    by (auto simp: str_int_def split: if_splits)
  then obtain d where d: "d < 10" "CHR ''t'' = digit_char d"
    using str_nat_chars by blast
  have "of_char (digit_char d) = 48 + d" using d(1) by (rule digit_char_code)
  then have "(of_char (CHR ''t'') :: nat) = 48 + d" using d(2) by simp
  then show False using d(1) by simp
qed

lemma sentinel_tail_no_marker: "\<not> contains exit_marker (str_int c @ [NL])"
proof
  assume "contains exit_marker (str_int c @ [NL])"
  then have "hd exit_marker \<in> set (str_int c @ [NL])"
    by (rule contains_hd) (simp add: exit_marker_def)
  then show False using no_t_in_str_int [of c] by (simp add: exit_marker_def NL_def)
qed

lemma prefix_digit_sentinel: "prefix [d] (str_int c @ [NL]) \<longleftrightarrow> hd (str_int c) = d"
  using str_int_nonempty [of c] by (cases "str_int c") auto

lemma str_int_small: "str_int 0 = ''0''" "str_int 1 = ''1''" "str_int 2 = ''2''"
  by code_simp+

subsection \<open>The report\<close>

lemma render_clean: "render ''NO_CHANGES'' ds = [NL] @ ''No changes detected.'' @ [NL]"
  by (simp add: render_def)

lemma render_error: "render ''HAS_ERROR'' ds = [NL] @ ''Errors found. See logs.'' @ [NL]"
  by (simp add: render_def)

lemma report_unfold:
  "fs log_file = Some raw \<Longrightarrow>
   plan_github_pr_comment fs log_file output =
     (case exit_state (universal_newlines raw) of
        Inl e \<Rightarrow> Inl e
      | Inr state \<Rightarrow> Inr (fs(output \<mapsto> render state (summarize_unit_logs fs log_file))))"
  by (simp add: plan_github_pr_comment_def)

lemma code3_state: "exit_state (universal_newlines code3_log) = Inl (BadParameter ''Unexpected exit code marker in log file'')"
  by code_simp

subsection \<open>The relay and the plan command\<close>



lemma concat_file_lines: "concat (file_lines s) = s"
  by (induction s) (auto split: list.splits)

text \<open>
  What a relay leaves in the log file: the lines in the order of the schedule, after
  what the file held. Every order that keeps each stream's own order comes from some
  schedule.
\<close>

lemma drain_line_files:
  "files (env (drain_line log_file quiet t ln st)) =
     (case log_file of Some p \<Rightarrow> fs_append p ln (files (env st)) | None \<Rightarrow> files (env st))"
  by (simp add: drain_line_def Let_def split: stream.splits option.splits)

lemma fs_append_same: "fs p = Some old \<Longrightarrow> fs_append p ln fs p = Some (old @ ln)"
  by (simp add: fs_append_def)

lemma fs_append_other: "q \<noteq> p \<Longrightarrow> fs_append p ln fs q = fs q"
  by (simp add: fs_append_def)

lemma drain_log:
  "files (env st) p = Some old \<Longrightarrow>
   files (env (drain sched outs errs (Some p) quiet st)) p =
     Some (old @ concat (interleave sched outs errs))"
  by (induction sched outs errs "Some p" quiet st arbitrary: old rule: drain.induct)
     (simp_all add: drain_line_files fs_append_same)

lemma drain_other_files:
  "q \<noteq> p \<Longrightarrow> files (env (drain sched outs errs (Some p) quiet st)) q = files (env st) q"
  by (induction sched outs errs "Some p" quiet st rule: drain.induct)
     (simp_all add: drain_line_files fs_append_other)

lemma drain_no_log:
  "files (env (drain sched outs errs None quiet st)) = files (env st)"
  by (induction sched outs errs "None :: path option" quiet st rule: drain.induct)
     (simp_all add: drain_line_files)

lemma interleave_shuffles: "interleave sched outs errs \<in> shuffles outs errs"
  by (induction sched outs errs rule: interleave.induct) auto

lemma interleave_Nil_right: "interleave sched ls [] = ls"
  by (induction ls) auto

lemma interleave_Nil_left: "interleave sched [] es = es"
  by (induction es) auto

lemma every_shuffle_scheduled:
  "zs \<in> shuffles outs errs \<Longrightarrow> \<exists>sched. interleave sched outs errs = zs"
proof (induction outs errs arbitrary: zs rule: shuffles.induct)
  case (1 ys)
  then show ?case by (simp add: interleave_Nil_left)
next
  case (2 xs)
  then show ?case by (simp add: interleave_Nil_right)
next
  case (3 x xs y ys)
  from "3.prems" consider
    zs' where "zs = x # zs'" "zs' \<in> shuffles xs (y # ys)"
    | zs' where "zs = y # zs'" "zs' \<in> shuffles (x # xs) ys"
    by auto
  then show ?case
  proof cases
    case 1
    then obtain sched where "interleave sched xs (y # ys) = zs'" using "3.IH"(1) by blast
    then have "interleave (Stdout # sched) (x # xs) (y # ys) = zs" using 1 by simp
    then show ?thesis by blast
  next
    case 2
    then obtain sched where "interleave sched (x # xs) ys = zs'" using "3.IH"(2) by blast
    then have "interleave (Stderr # sched) (x # xs) (y # ys) = zs" using 2 by simp
    then show ?thesis by blast
  qed
qed

lemma run_live_code: "code (fst (run_live exec sched cmd log_file cwd quiet wd)) = exit_code (exec cmd cwd)"
  by (simp add: run_live_def Let_def)

lemma run_live_log:
  "files (snd (run_live exec sched cmd (Some p) cwd quiet wd)) p =
     Some ((case files wd p of None \<Rightarrow> [] | Some old \<Rightarrow> old)
           @ concat (interleave sched (file_lines (universal_newlines (out_text (exec cmd cwd))))
                                      (file_lines (universal_newlines (err_text (exec cmd cwd))))))"
proof -
  let ?st = "\<lparr>out_lines = [], err_lines = [], env = wd\<lparr>files := touch p (files wd)\<rparr>\<rparr>"
  have "files (env ?st) p = Some (case files wd p of None \<Rightarrow> [] | Some old \<Rightarrow> old)"
    by (simp add: touch_def split: option.splits)
  then show ?thesis
    by (simp add: run_live_def Let_def drain_log)
qed

lemma run_live_no_log:
  "files (snd (run_live exec sched cmd None cwd quiet wd)) = files wd"
  by (simp add: run_live_def Let_def drain_no_log)

lemma plan_without_log:
  "files (snd (plan exec sched1 sched2 stack_root None wd)) = files wd"
  by (simp add: plan_def Let_def run_live_no_log split: prod.splits)
     (metis run_live_no_log snd_conv)

text \<open>
  The log file after \<open>Runner.plan\<close>: the output of the plan, and, unless the plan
  exited with code 1, the output of \<open>show\<close> and then the sentinel line as the last
  line.
\<close>

lemma plan_log_contents:
  "files (snd (plan exec sched1 sched2 stack_root (Some p) wd)) p =
     Some (concat (interleave sched1
                     (file_lines (universal_newlines (out_text (exec (plan_cmd stack_root) None))))
                     (file_lines (universal_newlines (err_text (exec (plan_cmd stack_root) None)))))
           @ (if exit_code (exec (plan_cmd stack_root) None) \<noteq> 1
              then concat (interleave sched2
                     (file_lines (universal_newlines (out_text (exec (show_cmd stack_root) None))))
                     (file_lines (universal_newlines (err_text (exec (show_cmd stack_root) None)))))
                   @ exit_marker @ str_int (exit_code (exec (plan_cmd stack_root) None)) @ [NL]
              else []))"
proof -
  let ?wd0 = "if files wd p \<noteq> None then wd\<lparr>files := (files wd)(p := None)\<rparr> else wd"
  obtain result wd1 where r1: "run_live exec sched1 (plan_cmd stack_root) (Some p) None False ?wd0 = (result, wd1)"
    by (cases "run_live exec sched1 (plan_cmd stack_root) (Some p) None False ?wd0")
  obtain shown wd' where r2: "run_live exec sched2 (show_cmd stack_root) (Some p) None True wd1 = (shown, wd')"
    by (cases "run_live exec sched2 (show_cmd stack_root) (Some p) None True wd1")
  have c: "code result = exit_code (exec (plan_cmd stack_root) None)"
    using run_live_code [of exec sched1 "plan_cmd stack_root" "Some p" None False ?wd0] r1 by simp
  have e: "files ?wd0 p = None" by simp
  have l1: "files wd1 p = Some (concat (interleave sched1
                     (file_lines (universal_newlines (out_text (exec (plan_cmd stack_root) None))))
                     (file_lines (universal_newlines (err_text (exec (plan_cmd stack_root) None))))))"
    using run_live_log [of exec sched1 "plan_cmd stack_root" p None False ?wd0] r1 e by simp
  have l2: "files wd' p = Some (concat (interleave sched1
                     (file_lines (universal_newlines (out_text (exec (plan_cmd stack_root) None))))
                     (file_lines (universal_newlines (err_text (exec (plan_cmd stack_root) None)))))
                @ concat (interleave sched2
                     (file_lines (universal_newlines (out_text (exec (show_cmd stack_root) None))))
                     (file_lines (universal_newlines (err_text (exec (show_cmd stack_root) None))))))"
    using run_live_log [of exec sched2 "show_cmd stack_root" p None True wd1] r2 l1 by simp
  show ?thesis
    using r1 r2 c l1 l2
    by (simp add: plan_def Let_def write_exit_marker_def fs_append_same)
qed

section \<open>The claims\<close>

text \<open>
  C1. A log file holding exactly the two lines
  \<open>[unit-a] tofu: No changes. Infrastructure is up-to-date.\<close> and
  \<open>[unit-b] tofu: ~ update resource "x"\<close> (the last one with or without its line feed)
  is summarized as stable = \<open>["unit-a"]\<close> and diffs = \<open>{"unit-b": ["! update resource \"x\""]}\<close>,
  at any path of any file system.
\<close>

theorem round_trip_summary:
  "summarize_unit_logs (fs(log_file \<mapsto> round_trip_log final_newline)) log_file =
     Some \<lparr>stable = [''unit-a''], diffs = [(''unit-b'', [''! update resource \"x\"''])]\<rparr>"
  by (simp add: summarize_unit_logs_def round_trip_eval)

theorem round_trip_summary_witness:
  "summarize_unit_logs (Map.empty(''plan.log'' \<mapsto> round_trip_log True)) ''plan.log'' =
     Some \<lparr>stable = [''unit-a''], diffs = [(''unit-b'', [''! update resource \"x\"''])]\<rparr>"
  using round_trip_summary [of Map.empty "''plan.log''" True] by simp

text \<open>
  C2, as amended. \<open>_normalize_diff_line\<close> moves the marker to the front of the line: when
  the line, with its leading whitespace stripped, begins with \<open>~\<close>, the result is \<open>!\<close>,
  then the leading whitespace of the line, then the rest of the line after the \<open>~\<close>;
  when it begins with \<open>+\<close> or \<open>-\<close>, the result is that marker, then the leading whitespace,
  then the rest. Every other line is returned as it is. So a line without leading
  whitespace has its \<open>~\<close> replaced by \<open>!\<close> in place, and its \<open>+\<close> or \<open>-\<close> left alone.
\<close>

theorem normalize_diff_line_marker_first:
  "normalize_diff_line line =
     (case lstrip line of
        [] \<Rightarrow> line
      | c # r \<Rightarrow>
          if c = CHR ''~'' then ''!'' @ takeWhile is_space line @ r
          else if c = CHR ''+'' \<or> c = CHR ''-'' then [c] @ takeWhile is_space line @ r
          else line)"
proof (cases "lstrip line")
  case Nil
  then show ?thesis
    by (simp add: normalize_diff_line_def replace_table_def startswith_def)
next
  case (Cons c r)
  have "replace_first (lstrip line) r line = takeWhile is_space line @ r"
    using Cons by (rule replace_in_line)
  then show ?thesis using Cons
    by (auto simp add: normalize_diff_line_def replace_table_def startswith_def)
qed

theorem normalize_diff_line_marker_first_witness:
  "normalize_diff_line ''  ~ x'' = ''!   x'' \<and> normalize_diff_line ''~ x'' = ''! x'' \<and>
   normalize_diff_line ''+ y'' = ''+ y'' \<and> normalize_diff_line ''  # z'' = ''  # z''"
  using normalize_diff_line_marker_first [of "''  ~ x''"]
    normalize_diff_line_marker_first [of "''~ x''"]
    normalize_diff_line_marker_first [of "''+ y''"]
    normalize_diff_line_marker_first [of "''  # z''"]
  by (simp add: lstrip_def is_space_def)

text \<open>
  The claim C2 as it is worded fails on a line with leading whitespace: the \<open>~\<close> is not
  replaced where it stands, and a \<open>+\<close> line does not pass through unchanged.
\<close>

theorem normalize_in_place_counterexample:
  "normalize_diff_line ''  ~ x'' \<noteq> ''  ! x'' \<and> normalize_diff_line ''  + x'' \<noteq> ''  + x''"
  by code_simp

text \<open>
  C3. In the summary of a log file, a unit of the grouped entries has at least one
  message, and it is in the stable list exactly when one of its messages, with leading
  whitespace trimmed and letter case ignored, begins with \<open>no changes\<close>; otherwise it is a
  key of the diffs. The unit with the messages \<open>no changes\<close> and \<open>+ add resource y\<close> is the
  witness: it is stable.
\<close>

theorem stable_iff_no_changes:
  assumes "fs log_file = Some content"
    and "summarize_unit_logs fs log_file = Some sd"
    and "(unit, msgs) \<in> set (collect_unit_entries content)"
  shows "msgs \<noteq> [] \<and>
         (unit \<in> set (stable sd) \<longleftrightarrow> (\<exists>m \<in> set msgs. spec_no_changes m)) \<and>
         (unit \<in> fst ` set (diffs sd) \<longleftrightarrow> \<not> (\<exists>m \<in> set msgs. spec_no_changes m))"
proof -
  have sd: "sd = summarize_loop (collect_unit_entries content) \<lparr>stable = [], diffs = []\<rparr>"
    using assms(1,2) by (simp add: summarize_unit_logs_def)
  have st: "stable sd = map fst (filter (\<lambda>(u, ms). list_ex no_changes_msg ms) (collect_unit_entries content))"
    unfolding sd summary_eq by simp
  have df: "diffs sd = map (\<lambda>(u, ms). (u, map normalize_diff_line ms))
                (filter (\<lambda>(u, ms). \<not> list_ex no_changes_msg ms) (collect_unit_entries content))"
    unfolding sd summary_eq by simp
  have a: "msgs \<noteq> []" using assms(3) by (rule grouped_nonempty)
  have "unit \<in> set (map fst (filter (\<lambda>(u, ms). list_ex no_changes_msg ms) (collect_unit_entries content)))
          \<longleftrightarrow> list_ex no_changes_msg msgs"
    using assms(3) grouped_distinct by (rule stable_member)
  then have b: "unit \<in> set (stable sd) \<longleftrightarrow> (\<exists>m \<in> set msgs. spec_no_changes m)"
    unfolding st by (rule trans) (rule list_ex_spec)
  have "unit \<in> fst ` set (map (\<lambda>(u, ms). (u, map normalize_diff_line ms))
                (filter (\<lambda>(u, ms). \<not> list_ex no_changes_msg ms) (collect_unit_entries content)))
          \<longleftrightarrow> \<not> list_ex no_changes_msg msgs"
    using assms(3) grouped_distinct by (rule changed_member)
  then have c: "unit \<in> fst ` set (diffs sd) \<longleftrightarrow> \<not> (\<exists>m \<in> set msgs. spec_no_changes m)"
    unfolding df by (rule trans) (simp add: list_ex_spec)
  show ?thesis using a b c by blast
qed

theorem stable_iff_no_changes_witness:
  "(\<lambda>p. if p = ''plan.log'' then Some tie_break_log else None) ''plan.log'' = Some tie_break_log \<and>
   summarize_unit_logs (\<lambda>p. if p = ''plan.log'' then Some tie_break_log else None) ''plan.log''
     = Some \<lparr>stable = [''u''], diffs = []\<rparr> \<and>
   (''u'', [''no changes'', ''+ add resource y'']) \<in> set (collect_unit_entries tie_break_log) \<and>
   ''u'' \<in> set (stable \<lparr>stable = [''u''], diffs = []\<rparr>) \<and>
   spec_no_changes ''no changes''"
proof -
  let ?fs = "\<lambda>p. if p = ''plan.log'' then Some tie_break_log else None"
  have h1: "?fs ''plan.log'' = Some tie_break_log" by simp
  have h2: "summarize_unit_logs ?fs ''plan.log'' = Some \<lparr>stable = [''u''], diffs = []\<rparr>"
    by code_simp
  have h3: "(''u'', [''no changes'', ''+ add resource y'']) \<in> set (collect_unit_entries tie_break_log)"
    by code_simp
  have h4: "spec_no_changes ''no changes''"
    by code_simp
  show ?thesis using stable_iff_no_changes [OF h1 h2 h3] h1 h2 h3 h4 by simp
qed



text \<open>
  C8. The names in the stable list and the keys of the diffs are, together, exactly the
  stripped names of the modules of the matching lines; no name is in both, and neither
  holds a name twice.
\<close>

theorem unit_names_consistent:
  assumes "fs log_file = Some content"
    and "summarize_unit_logs fs log_file = Some sd"
  shows "set (stable sd) \<union> fst ` set (diffs sd) =
           set (unit_names (file_lines (universal_newlines content))) \<and>
         set (stable sd) \<inter> fst ` set (diffs sd) = {} \<and>
         distinct (stable sd) \<and> distinct (map fst (diffs sd))"
proof -
  let ?g = "collect_unit_entries content"
  let ?P = "\<lambda>(u :: string, ms). list_ex no_changes_msg ms"
  have sd: "sd = summarize_loop ?g \<lparr>stable = [], diffs = []\<rparr>"
    using assms by (simp add: summarize_unit_logs_def)
  have st: "stable sd = map fst (filter ?P ?g)"
    unfolding sd summary_eq by simp
  have df: "map fst (diffs sd) = map fst (filter (\<lambda>x. \<not> ?P x) ?g)"
    unfolding sd summary_eq by (simp add: case_prod_unfold comp_def)
  have keys: "fst ` set ?g = set (unit_names (file_lines (universal_newlines content)))"
    unfolding collect_unit_entries_def collect_loop_keys by simp
  have d: "distinct (map fst ?g)" by (rule grouped_distinct)
  have u: "set (stable sd) \<union> set (map fst (diffs sd)) = fst ` set ?g"
    unfolding st df by auto
  have i: "set (stable sd) \<inter> set (map fst (diffs sd)) = {}"
    unfolding st df using d by (auto dest: eq_key_imp_eq_value)
  have d1: "distinct (stable sd)" unfolding st using d by (rule distinct_map_filter)
  have d2: "distinct (map fst (diffs sd))" unfolding df using d by (rule distinct_map_filter)
  show ?thesis using u i d1 d2 keys by simp
qed

theorem unit_names_consistent_witness:
  "(Map.empty(''plan.log'' \<mapsto> round_trip_log True)) ''plan.log'' = Some (round_trip_log True) \<and>
   set [''unit-a''] \<union> fst ` set [(''unit-b'', [''! update resource \"x\"''])] =
     set (unit_names (file_lines (universal_newlines (round_trip_log True)))) \<and>
   set [''unit-a''] \<inter> fst ` set [(''unit-b'', [''! update resource \"x\"''])] = {}"
proof -
  let ?fs = "Map.empty(''plan.log'' \<mapsto> round_trip_log True)"
  let ?sd = "\<lparr>stable = [''unit-a''], diffs = [(''unit-b'', [''! update resource \"x\"''])]\<rparr>"
  have h1: "?fs ''plan.log'' = Some (round_trip_log True)" by simp
  have h2: "summarize_unit_logs ?fs ''plan.log'' = Some ?sd"
    by (simp add: summarize_unit_logs_def round_trip_eval)
  show ?thesis using unit_names_consistent [OF h1 h2] h1 by simp
qed

text \<open>
  C9. When no line of the log file matches the pattern, the summary has an empty stable
  list and an empty diffs mapping.
\<close>

theorem no_match_empty_summary:
  assumes "fs log_file = Some content"
    and "\<forall>ln \<in> set (file_lines (universal_newlines content)). TOFU_RE_match ln = None"
  shows "summarize_unit_logs fs log_file = Some \<lparr>stable = [], diffs = []\<rparr>"
  using assms by (simp add: summarize_unit_logs_def collect_unit_entries_def collect_loop_no_match)

theorem no_match_empty_summary_witness:
  "(Map.empty(''plan.log'' \<mapsto> plain_log)) ''plan.log'' = Some plain_log \<and>
   list_all (\<lambda>ln. TOFU_RE_match ln = None) (file_lines (universal_newlines plain_log)) \<and>
   summarize_unit_logs (Map.empty(''plan.log'' \<mapsto> plain_log)) ''plan.log'' =
     Some \<lparr>stable = [], diffs = []\<rparr>"
proof -
  have h1: "(Map.empty(''plan.log'' \<mapsto> plain_log)) ''plan.log'' = Some plain_log" by simp
  have h0: "list_all (\<lambda>ln. TOFU_RE_match ln = None) (file_lines (universal_newlines plain_log))"
    by code_simp
  then have h2: "\<forall>ln \<in> set (file_lines (universal_newlines plain_log)). TOFU_RE_match ln = None"
    by (simp only: list_all_iff)
  show ?thesis
    using no_match_empty_summary
      [of "Map.empty(''plan.log'' \<mapsto> plain_log)" "''plan.log''" plain_log, OF h1 h2] h1 h0
    by simp
qed

text \<open>
  C4, as amended. For a log whose text, as read, is a body without the marker text
  followed by the sentinel line of the code \<open>c\<close>: code 0 gives the clean report, a line
  feed, \<open>No changes detected.\<close> and a line feed; code 1 gives the error report with
  \<open>Errors found. See logs.\<close>; code 2 gives the has-changes report; and a code whose decimal
  form does not begin with 0, 1 or 2 (a negative code, 3 to 9, 30 and so on) is rejected
  with the parameter error \<open>Unexpected exit code marker in log file\<close>.
\<close>

theorem report_by_exit_code:
  assumes "fs log_file = Some raw"
    and "universal_newlines raw = body @ exit_marker @ str_int c @ [NL]"
    and "\<not> contains exit_marker body"
  shows "(c = 0 \<longrightarrow> plan_github_pr_comment fs log_file output =
            Inr (fs(output \<mapsto> [NL] @ ''No changes detected.'' @ [NL]))) \<and>
         (c = 1 \<longrightarrow> plan_github_pr_comment fs log_file output =
            Inr (fs(output \<mapsto> [NL] @ ''Errors found. See logs.'' @ [NL]))) \<and>
         (c = 2 \<longrightarrow> plan_github_pr_comment fs log_file output =
            Inr (fs(output \<mapsto> render ''HAS_CHANGES'' (summarize_unit_logs fs log_file)))) \<and>
         (hd (str_int c) \<notin> {CHR ''0'', CHR ''1'', CHR ''2''} \<longrightarrow>
            plan_github_pr_comment fs log_file output =
              Inl (BadParameter ''Unexpected exit code marker in log file''))"
proof -
  have st: "exit_state (universal_newlines raw) =
     (if hd (str_int c) = CHR ''0'' then Inr ''NO_CHANGES''
      else if hd (str_int c) = CHR ''1'' then Inr ''HAS_ERROR''
      else if hd (str_int c) = CHR ''2'' then Inr ''HAS_CHANGES''
      else Inl (BadParameter ''Unexpected exit code marker in log file''))"
    unfolding assms(2)
    using exit_state_single_marker [OF assms(3) sentinel_tail_no_marker, of c]
    by (simp only: prefix_digit_sentinel)
  have r: "plan_github_pr_comment fs log_file output =
     (case exit_state (universal_newlines raw) of
        Inl e \<Rightarrow> Inl e
      | Inr state \<Rightarrow> Inr (fs(output \<mapsto> render state (summarize_unit_logs fs log_file))))"
    using assms(1) by (rule report_unfold)
  have c0: "c = 0 \<longrightarrow> plan_github_pr_comment fs log_file output =
            Inr (fs(output \<mapsto> [NL] @ ''No changes detected.'' @ [NL]))"
    unfolding r st by (simp add: str_int_small render_clean)
  have c1: "c = 1 \<longrightarrow> plan_github_pr_comment fs log_file output =
            Inr (fs(output \<mapsto> [NL] @ ''Errors found. See logs.'' @ [NL]))"
    unfolding r st by (simp add: str_int_small render_error)
  have c2: "c = 2 \<longrightarrow> plan_github_pr_comment fs log_file output =
            Inr (fs(output \<mapsto> render ''HAS_CHANGES'' (summarize_unit_logs fs log_file)))"
    unfolding r st by (simp add: str_int_small)
  have cx: "hd (str_int c) \<notin> {CHR ''0'', CHR ''1'', CHR ''2''} \<longrightarrow>
            plan_github_pr_comment fs log_file output =
              Inl (BadParameter ''Unexpected exit code marker in log file'')"
    unfolding r st by simp
  show ?thesis using c0 c1 c2 cx by blast
qed

theorem report_by_exit_code_witness:
  "plan_github_pr_comment (Map.empty(''plan.log'' \<mapsto> sentinel_log 0)) ''plan.log'' ''comment.md'' =
     Inr ((Map.empty(''plan.log'' \<mapsto> sentinel_log 0))
            (''comment.md'' \<mapsto> [NL] @ ''No changes detected.'' @ [NL])) \<and>
   plan_github_pr_comment (Map.empty(''plan.log'' \<mapsto> sentinel_log 1)) ''plan.log'' ''comment.md'' =
     Inr ((Map.empty(''plan.log'' \<mapsto> sentinel_log 1))
            (''comment.md'' \<mapsto> [NL] @ ''Errors found. See logs.'' @ [NL])) \<and>
   plan_github_pr_comment (Map.empty(''plan.log'' \<mapsto> sentinel_log 3)) ''plan.log'' ''comment.md'' =
     Inl (BadParameter ''Unexpected exit code marker in log file'')"
proof -
  have f: "\<And>c. (Map.empty(''plan.log'' \<mapsto> sentinel_log c)) ''plan.log'' = Some (sentinel_log c)"
    by simp
  have n: "\<not> contains exit_marker ''plan output'' \<and> \<not> contains exit_marker ([] :: string)"
    by code_simp
  have u0: "universal_newlines (sentinel_log 0) = ''plan output'' @ exit_marker @ str_int 0 @ [NL]"
    by code_simp
  have u1: "universal_newlines (sentinel_log 1) = ''plan output'' @ exit_marker @ str_int 1 @ [NL]"
    by code_simp
  have u3: "universal_newlines (sentinel_log 3) = ''plan output'' @ exit_marker @ str_int 3 @ [NL]"
    by code_simp
  have h3: "hd (str_int 3) \<notin> {CHR ''0'', CHR ''1'', CHR ''2''}"
    by code_simp
  show ?thesis
    using report_by_exit_code
        [of "Map.empty(''plan.log'' \<mapsto> sentinel_log 0)" "''plan.log''" "sentinel_log 0"
            "''plan output''" 0 "''comment.md''"]
      report_by_exit_code
        [of "Map.empty(''plan.log'' \<mapsto> sentinel_log 1)" "''plan.log''" "sentinel_log 1"
            "''plan output''" 1 "''comment.md''"]
      report_by_exit_code
        [of "Map.empty(''plan.log'' \<mapsto> sentinel_log 3)" "''plan.log''" "sentinel_log 3"
            "''plan output''" 3 "''comment.md''"]
      f u0 u1 u3 n h3
    by simp
qed

text \<open>
  The claim C4 as it is worded fails for the code 3, a non-zero code other than 2: the
  report command writes no error report, it raises the parameter error.
\<close>

theorem other_code_not_error_report_counterexample:
  "plan_github_pr_comment (Map.empty(''plan.log'' \<mapsto> code3_log)) ''plan.log'' ''comment.md'' =
     Inl (BadParameter ''Unexpected exit code marker in log file'')"
  by (simp add: report_unfold code3_state)

text \<open>
  C10. The report command chooses the state by substring tests on the whole text of
  the log, in the order \<open>=0\<close>, \<open>=1\<close>, \<open>=2\<close>: a text that holds \<open>terragrunt-exit-code=0\<close>
  anywhere is clean and gets the clean report, whatever follows; without it, a text that
  holds \<open>terragrunt-exit-code=1\<close> has the error state; without both, one that holds
  \<open>terragrunt-exit-code=2\<close> has changes. A single marker followed by a longer code is
  classified by the first character of that code alone.
\<close>

theorem marker_substring_order:
  assumes "fs log_file = Some raw" and "content = universal_newlines raw"
  shows "(contains (exit_marker @ ''0'') content \<longrightarrow>
            exit_state content = Inr ''NO_CHANGES'' \<and>
            plan_github_pr_comment fs log_file output =
              Inr (fs(output \<mapsto> [NL] @ ''No changes detected.'' @ [NL]))) \<and>
         (\<not> contains (exit_marker @ ''0'') content \<and> contains (exit_marker @ ''1'') content \<longrightarrow>
            exit_state content = Inr ''HAS_ERROR'' \<and>
            plan_github_pr_comment fs log_file output =
              Inr (fs(output \<mapsto> [NL] @ ''Errors found. See logs.'' @ [NL]))) \<and>
         (\<not> contains (exit_marker @ ''0'') content \<and> \<not> contains (exit_marker @ ''1'') content \<and>
          contains (exit_marker @ ''2'') content \<longrightarrow>
            exit_state content = Inr ''HAS_CHANGES'') \<and>
         (\<forall>body d rest.
            content = body @ exit_marker @ d # rest \<and> \<not> contains exit_marker body \<and>
            \<not> contains exit_marker (d # rest) \<longrightarrow>
              (d = CHR ''0'' \<longrightarrow> exit_state content = Inr ''NO_CHANGES'') \<and>
              (d = CHR ''1'' \<longrightarrow> exit_state content = Inr ''HAS_ERROR'') \<and>
              (d = CHR ''2'' \<longrightarrow> exit_state content = Inr ''HAS_CHANGES''))"
proof -
  have r: "plan_github_pr_comment fs log_file output =
     (case exit_state content of
        Inl e \<Rightarrow> Inl e
      | Inr state \<Rightarrow> Inr (fs(output \<mapsto> render state (summarize_unit_logs fs log_file))))"
    unfolding assms(2) using assms(1) by (rule report_unfold)
  have m: "\<And>q. contains (exit_marker @ q) content \<Longrightarrow> contains exit_marker content"
    by (rule contains_append_right)
  have a: "contains (exit_marker @ ''0'') content \<longrightarrow>
            exit_state content = Inr ''NO_CHANGES'' \<and>
            plan_github_pr_comment fs log_file output =
              Inr (fs(output \<mapsto> [NL] @ ''No changes detected.'' @ [NL]))"
    unfolding r using m [of "''0''"] by (auto simp: exit_state_def render_clean)
  have b: "\<not> contains (exit_marker @ ''0'') content \<and> contains (exit_marker @ ''1'') content \<longrightarrow>
            exit_state content = Inr ''HAS_ERROR'' \<and>
            plan_github_pr_comment fs log_file output =
              Inr (fs(output \<mapsto> [NL] @ ''Errors found. See logs.'' @ [NL]))"
    unfolding r using m [of "''1''"] by (auto simp: exit_state_def render_error)
  have c: "\<not> contains (exit_marker @ ''0'') content \<and> \<not> contains (exit_marker @ ''1'') content \<and>
          contains (exit_marker @ ''2'') content \<longrightarrow>
            exit_state content = Inr ''HAS_CHANGES''"
    using m [of "''2''"] by (auto simp: exit_state_def)
  have d: "\<forall>body d rest.
            content = body @ exit_marker @ d # rest \<and> \<not> contains exit_marker body \<and>
            \<not> contains exit_marker (d # rest) \<longrightarrow>
              (d = CHR ''0'' \<longrightarrow> exit_state content = Inr ''NO_CHANGES'') \<and>
              (d = CHR ''1'' \<longrightarrow> exit_state content = Inr ''HAS_ERROR'') \<and>
              (d = CHR ''2'' \<longrightarrow> exit_state content = Inr ''HAS_CHANGES'')"
  proof (intro allI impI)
    fix body d rest
    assume h: "content = body @ exit_marker @ d # rest \<and> \<not> contains exit_marker body \<and>
            \<not> contains exit_marker (d # rest)"
    then have "exit_state content =
     (if prefix ''0'' (d # rest) then Inr ''NO_CHANGES''
      else if prefix ''1'' (d # rest) then Inr ''HAS_ERROR''
      else if prefix ''2'' (d # rest) then Inr ''HAS_CHANGES''
      else Inl (BadParameter ''Unexpected exit code marker in log file''))"
      using exit_state_single_marker [of body "d # rest"] by blast
    then show "(d = CHR ''0'' \<longrightarrow> exit_state content = Inr ''NO_CHANGES'') \<and>
              (d = CHR ''1'' \<longrightarrow> exit_state content = Inr ''HAS_ERROR'') \<and>
              (d = CHR ''2'' \<longrightarrow> exit_state content = Inr ''HAS_CHANGES'')"
      by simp
  qed
  show ?thesis using a b c d by blast
qed

theorem marker_substring_order_witness:
  "contains (exit_marker @ ''0'') (universal_newlines shadowed_log) \<and>
   exit_state (universal_newlines shadowed_log) = Inr ''NO_CHANGES'' \<and>
   plan_github_pr_comment (Map.empty(''plan.log'' \<mapsto> shadowed_log)) ''plan.log'' ''comment.md'' =
     Inr ((Map.empty(''plan.log'' \<mapsto> shadowed_log))
            (''comment.md'' \<mapsto> [NL] @ ''No changes detected.'' @ [NL])) \<and>
   exit_state (universal_newlines (sentinel_log 127)) = Inr ''HAS_ERROR'' \<and>
   exit_state (universal_newlines (sentinel_log 20)) = Inr ''HAS_CHANGES''"
proof -
  have f: "\<And>l. (Map.empty(''plan.log'' \<mapsto> l)) ''plan.log'' = Some l"
    by simp
  have c0: "contains (exit_marker @ ''0'') (universal_newlines shadowed_log)"
    by code_simp
  have d1: "universal_newlines (sentinel_log 127) = ''plan output'' @ exit_marker @ CHR ''1'' # (''27'' @ [NL]) \<and>
            \<not> contains exit_marker ''plan output'' \<and> \<not> contains exit_marker (CHR ''1'' # (''27'' @ [NL]))"
    by code_simp
  have d2: "universal_newlines (sentinel_log 20) = ''plan output'' @ exit_marker @ CHR ''2'' # (''0'' @ [NL]) \<and>
            \<not> contains exit_marker ''plan output'' \<and> \<not> contains exit_marker (CHR ''2'' # (''0'' @ [NL]))"
    by code_simp
  have a: "exit_state (universal_newlines shadowed_log) = Inr ''NO_CHANGES'' \<and>
      plan_github_pr_comment (Map.empty(''plan.log'' \<mapsto> shadowed_log)) ''plan.log'' ''comment.md'' =
        Inr ((Map.empty(''plan.log'' \<mapsto> shadowed_log))
               (''comment.md'' \<mapsto> [NL] @ ''No changes detected.'' @ [NL]))"
    using marker_substring_order
        [of "Map.empty(''plan.log'' \<mapsto> shadowed_log)" "''plan.log''" "shadowed_log"
            "universal_newlines (shadowed_log)" "''comment.md''", OF f refl] c0 by blast
  have b: "exit_state (universal_newlines (sentinel_log 127)) = Inr ''HAS_ERROR''"
    using marker_substring_order
        [of "Map.empty(''plan.log'' \<mapsto> sentinel_log 127)" "''plan.log''" "sentinel_log 127"
            "universal_newlines (sentinel_log 127)" "''comment.md''", OF f refl] d1 by blast
  have c: "exit_state (universal_newlines (sentinel_log 20)) = Inr ''HAS_CHANGES''"
    using marker_substring_order
        [of "Map.empty(''plan.log'' \<mapsto> sentinel_log 20)" "''plan.log''" "sentinel_log 20"
            "universal_newlines (sentinel_log 20)" "''comment.md''", OF f refl] d2 by blast
  show ?thesis using c0 a b c by blast
qed



text \<open>
  C5, at the input where the code departs from it: a plan run with a log file whose
  child exits with code 1. The run raises \<open>Exit\<close>, the log file holds the output of the
  plan and no sentinel line, and the report command then rejects that log as one without
  a marker.
\<close>

theorem plan_error_leaves_no_sentinel:
  "fst (plan failing_os [] [] ''stack'' (Some ''plan.log'') empty_world) = Inl (Exit 1) \<and>
   files (snd (plan failing_os [] [] ''stack'' (Some ''plan.log'') empty_world)) ''plan.log'' =
     Some (''Error: plan failed'' @ [NL]) \<and>
   plan_github_pr_comment
     (files (snd (plan failing_os [] [] ''stack'' (Some ''plan.log'') empty_world)))
     ''plan.log'' ''comment.md'' =
     Inl (BadParameter ''Log file missing terragrunt-exit-code marker'')"
proof -
  let ?w = "snd (plan failing_os [] [] ''stack'' (Some ''plan.log'') empty_world)"
  have a: "fst (plan failing_os [] [] ''stack'' (Some ''plan.log'') empty_world) = Inl (Exit 1)"
    by code_simp
  have b: "files ?w ''plan.log'' = Some (''Error: plan failed'' @ [NL])"
    by code_simp
  have c: "exit_state (universal_newlines (''Error: plan failed'' @ [NL])) =
             Inl (BadParameter ''Log file missing terragrunt-exit-code marker'')"
    by code_simp
  have d: "plan_github_pr_comment (files ?w) ''plan.log'' ''comment.md'' =
             Inl (BadParameter ''Log file missing terragrunt-exit-code marker'')"
    using report_unfold [of "files ?w" "''plan.log''" "''Error: plan failed'' @ [NL]" "''comment.md''"] b c
    by simp
  show ?thesis using a b d by blast
qed

end
